theory Spec2Isabelle
  imports Main "HOL-Library.FSet" "HOL-Library.Finite_Map"
begin

section \<open>Reference-counted actors (calico/felix/refcount.py)\<close>

text \<open>
  The module holds two stateful classes. \<^verbatim>\<open>ReferenceManager\<close> keeps, per object ID, the
  current ref-counted actor, the actors that are still cleaning up and the callbacks that
  wait for the current actor to become live. \<^verbatim>\<open>RefHelper\<close> is the client side: the IDs a
  client requires, the IDs it has asked the manager for, and the objects it has received.

  Both are modelled by explicit state passing. Every call that leaves the object (a hook
  of the manager, a message to an actor, a spawned callback, a call from the helper to its
  manager) is appended to a log field of the state, oldest first, so that "is issued",
  "fires once" and "is not issued" are statements about that log. Logging through
  \<^verbatim>\<open>_log\<close> is not modelled.
\<close>

subsection \<open>Ref-counted actors and the store\<close>

text \<open>The four values of \<^verbatim>\<open>ref_mgmt_state\<close>.\<close>

datatype ref_state = CREATED | STARTING | LIVE | STOPPING

text \<open>
  The exceptions the manager's code can raise: a failed \<^verbatim>\<open>assert\<close>, and the attribute
  access \<^verbatim>\<open>obj.ref_mgmt_state\<close> on \<^verbatim>\<open>None\<close> in the logging branch of
  \<^verbatim>\<open>_maybe_notify_referrers\<close>.
\<close>

datatype error = AssertionError | AttributeError

text \<open>
  The manager compares actors by identity (\<^verbatim>\<open>is not\<close>) and mutates their fields through
  whichever reference it holds, so actors live in a store and are referred to by address.
  The fields are the ones \<^verbatim>\<open>RefCountedActor.__init__\<close> sets, but for the back-reference
  \<^verbatim>\<open>_manager\<close>: there is one manager in the model.
\<close>

type_synonym obj = nat

record 'id ref_counted_actor =
  actor_id :: "'id option"
  ref_mgmt_state :: ref_state
  ref_count :: int

definition new_actor :: "'id ref_counted_actor" where
  "new_actor = \<lparr>actor_id = None, ref_mgmt_state = CREATED, ref_count = 0\<rparr>"

subsection \<open>ReferenceManager\<close>

text \<open>
  What the manager does to the outside, in the order it does it: the two hooks a subclass
  overrides (\<^verbatim>\<open>_create\<close>, \<^verbatim>\<open>_on_object_started\<close>), the two calls on an actor
  (\<^verbatim>\<open>obj.start()\<close>, \<^verbatim>\<open>obj.on_unreferenced(async=True)\<close>) and
  \<^verbatim>\<open>gevent.spawn(cb, object_id, obj)\<close>.
\<close>

datatype ('id, 'cb) effect =
    Create 'id obj
  | Start obj
  | OnObjectStarted 'id obj
  | OnUnreferenced obj
  | Spawn 'cb 'id obj

record ('id, 'cb) reference_manager =
  objects_by_id :: "'id \<rightharpoonup> obj"
  stopping_objects_by_id :: "'id \<rightharpoonup> obj fset"
  pending_ref_callbacks :: "'id \<rightharpoonup> 'cb fset"
  heap :: "obj \<Rightarrow> 'id ref_counted_actor"
  next_obj :: obj
  effects :: "('id, 'cb) effect list"

definition manager_init :: "('id, 'cb) reference_manager" where
  "manager_init =
     \<lparr>objects_by_id = Map.empty, stopping_objects_by_id = Map.empty,
      pending_ref_callbacks = Map.empty, heap = (\<lambda>_. new_actor), next_obj = 0,
      effects = []\<rparr>"

text \<open>
  \<^verbatim>\<open>stopping_objects_by_id\<close> and \<^verbatim>\<open>pending_ref_callbacks\<close> are
  \<^verbatim>\<open>collections.defaultdict(set)\<close>: indexing a missing key yields the empty set (and
  stores it, which the callers below write out).
\<close>

definition defaultdict_get :: "('k \<rightharpoonup> 'v fset) \<Rightarrow> 'k \<Rightarrow> 'v fset" where
  "defaultdict_get d k = (case d k of None \<Rightarrow> {||} | Some S \<Rightarrow> S)"

definition set_ref_mgmt_state ::
  "obj \<Rightarrow> ref_state \<Rightarrow> ('id, 'cb) reference_manager \<Rightarrow> ('id, 'cb) reference_manager" where
  "set_ref_mgmt_state obj st s =
     s\<lparr>heap := (heap s)(obj := (heap s obj)\<lparr>ref_mgmt_state := st\<rparr>)\<rparr>"

definition set_ref_count ::
  "obj \<Rightarrow> int \<Rightarrow> ('id, 'cb) reference_manager \<Rightarrow> ('id, 'cb) reference_manager" where
  "set_ref_count obj n s = s\<lparr>heap := (heap s)(obj := (heap s obj)\<lparr>ref_count := n\<rparr>)\<rparr>"

definition emit ::
  "('id, 'cb) effect list \<Rightarrow> ('id, 'cb) reference_manager \<Rightarrow> ('id, 'cb) reference_manager" where
  "emit es s = s\<lparr>effects := effects s @ es\<rparr>"

text \<open>
  Modelled from the spec: the construction hook \<^verbatim>\<open>_create\<close> is abstract in the source
  (it raises \<^verbatim>\<open>NotImplementedError\<close>; the subclasses that override it are not part of this
  module). By its docstring and the spec it returns a new, not yet started instance: here
  a fresh address holding the fields that \<^verbatim>\<open>RefCountedActor.__init__\<close> sets. The call
  is recorded as a \<open>Create\<close> effect. The hooks \<^verbatim>\<open>start\<close>, \<^verbatim>\<open>_on_object_started\<close>
  and \<^verbatim>\<open>on_unreferenced\<close> are recorded as effects only.
\<close>

definition create ::
  "'id \<Rightarrow> ('id, 'cb) reference_manager \<Rightarrow> obj \<times> ('id, 'cb) reference_manager" where
  "create object_id s =
     (next_obj s,
      emit [Create object_id (next_obj s)]
        (s\<lparr>heap := (heap s)(next_obj s := new_actor), next_obj := Suc (next_obj s)\<rparr>))"

definition maybe_start ::
  "'id \<Rightarrow> ('id, 'cb) reference_manager \<Rightarrow> ('id, 'cb) reference_manager" where
  "maybe_start obj_id s =
     (case objects_by_id s obj_id of
        None \<Rightarrow> s
      | Some obj \<Rightarrow>
          if ref_mgmt_state (heap s obj) = CREATED \<and> obj_id \<notin> dom (stopping_objects_by_id s)
          then emit [Start obj, OnObjectStarted obj_id obj] (set_ref_mgmt_state obj STARTING s)
          else s)"

text \<open>
  The pending callbacks are a set; the loop spawns them in the set's iteration order,
  which Python leaves open. The model spawns them in ascending order, and no theorem
  below depends on the order. In the \<^verbatim>\<open>else\<close> branch the argument of the log call,
  \<^verbatim>\<open>obj.ref_mgmt_state\<close>, is evaluated, which raises when \<^verbatim>\<open>obj\<close> is \<^verbatim>\<open>None\<close>.
\<close>

definition maybe_notify_referrers ::
  "'id \<Rightarrow> ('id, 'cb::linorder) reference_manager \<Rightarrow> error + ('id, 'cb) reference_manager" where
  "maybe_notify_referrers object_id s =
     (case objects_by_id s object_id of
        None \<Rightarrow> Inl AttributeError
      | Some obj \<Rightarrow>
          if ref_mgmt_state (heap s obj) = LIVE then
            let cbs = sorted_list_of_fset (defaultdict_get (pending_ref_callbacks s) object_id);
                s1 = emit (map (\<lambda>cb. Spawn cb object_id obj) cbs) s
            in Inr (s1\<lparr>pending_ref_callbacks := (pending_ref_callbacks s1)(object_id := None)\<rparr>)
          else Inr s)"

text \<open>
  \<^verbatim>\<open>object_id\<close> may be \<^verbatim>\<open>None\<close> on entry (the assertion is there to reject it), so it
  is an option here; every other identifier is a key that passed this check. The callback
  is optional in the source (\<^verbatim>\<open>callback=None\<close>).
\<close>

definition get_and_incref ::
  "'id option \<Rightarrow> 'cb option \<Rightarrow> ('id, 'cb::linorder) reference_manager
     \<Rightarrow> error + ('id, 'cb) reference_manager" where
  "get_and_incref oid callback s =
     (case oid of
        None \<Rightarrow> Inl AssertionError
      | Some object_id \<Rightarrow>
          let (obj, s1) =
                (case objects_by_id s object_id of
                   None \<Rightarrow>
                     let (obj, s') = create object_id s;
                         s'' = s'\<lparr>heap := (heap s')(obj := (heap s' obj)\<lparr>actor_id := Some object_id\<rparr>)\<rparr>
                     in (obj, s''\<lparr>objects_by_id := (objects_by_id s'')(object_id \<mapsto> obj)\<rparr>)
                 | Some obj \<Rightarrow> (obj, s));
              s2 = (case callback of
                      None \<Rightarrow> s1
                    | Some cb \<Rightarrow>
                        s1\<lparr>pending_ref_callbacks := (pending_ref_callbacks s1)
                             (object_id \<mapsto> finsert cb (defaultdict_get (pending_ref_callbacks s1) object_id))\<rparr>);
              s3 = set_ref_count obj (ref_count (heap s2 obj) + 1) s2
          in maybe_notify_referrers object_id (maybe_start object_id s3))"

definition on_object_startup_complete ::
  "'id \<Rightarrow> obj \<Rightarrow> ('id, 'cb::linorder) reference_manager
     \<Rightarrow> error + ('id, 'cb) reference_manager" where
  "on_object_startup_complete object_id obj s =
     (if objects_by_id s object_id \<noteq> Some obj then Inr s
      else if ref_mgmt_state (heap s obj) \<noteq> STARTING then Inr s
      else maybe_notify_referrers object_id (set_ref_mgmt_state obj LIVE s))"

text \<open>
  A failed assertion aborts the call; the decrement that precedes the second assertion is
  lost with the state.
\<close>

definition decref ::
  "'id \<Rightarrow> ('id, 'cb) reference_manager \<Rightarrow> error + ('id, 'cb) reference_manager" where
  "decref object_id s =
     (case objects_by_id s object_id of
        None \<Rightarrow> Inl AssertionError
      | Some obj \<Rightarrow>
          let s1 = set_ref_count obj (ref_count (heap s obj) - 1) s in
          if ref_count (heap s1 obj) < 0 then Inl AssertionError
          else if ref_count (heap s1 obj) = 0 then
            let s2 = (if ref_mgmt_state (heap s1 obj) = CREATED then s1
                      else
                        let s' = emit [OnUnreferenced obj] (set_ref_mgmt_state obj STOPPING s1)
                        in s'\<lparr>stopping_objects_by_id := (stopping_objects_by_id s')
                               (object_id \<mapsto> finsert obj (defaultdict_get (stopping_objects_by_id s') object_id))\<rparr>);
                s3 = s2\<lparr>objects_by_id := (objects_by_id s2)(object_id := None)\<rparr>
            in Inr (s3\<lparr>pending_ref_callbacks := (pending_ref_callbacks s3)(object_id := None)\<rparr>)
          else Inr s1)"

definition on_object_cleanup_complete ::
  "'id \<Rightarrow> obj \<Rightarrow> ('id, 'cb) reference_manager \<Rightarrow> error + ('id, 'cb) reference_manager" where
  "on_object_cleanup_complete object_id obj s =
     (let s1 = s\<lparr>stopping_objects_by_id := (stopping_objects_by_id s)
                  (object_id \<mapsto> defaultdict_get (stopping_objects_by_id s) object_id |-| {|obj|})\<rparr>
      in if defaultdict_get (stopping_objects_by_id s1) object_id = {||} then
           Inr (maybe_start object_id
                  (s1\<lparr>stopping_objects_by_id := (stopping_objects_by_id s1)(object_id := None)\<rparr>))
         else Inr s1)"

definition is_starting_or_live :: "'id \<Rightarrow> ('id, 'cb) reference_manager \<Rightarrow> bool" where
  "is_starting_or_live obj_id s \<longleftrightarrow>
     (case objects_by_id s obj_id of
        None \<Rightarrow> False
      | Some obj \<Rightarrow> ref_mgmt_state (heap s obj) \<in> {STARTING, LIVE})"

text \<open>
  The manager is an actor: its four \<^verbatim>\<open>@actor_event\<close> methods are processed one at a time.
  A run is a list of such messages, processed in order until one raises.
\<close>

datatype ('id, 'cb) message =
    GetAndIncref "'id option" "'cb option"
  | Decref 'id
  | OnObjectStartupComplete 'id obj
  | OnObjectCleanupComplete 'id obj

fun handle ::
  "('id, 'cb) message \<Rightarrow> ('id, 'cb::linorder) reference_manager
     \<Rightarrow> error + ('id, 'cb) reference_manager" where
  "handle (GetAndIncref oid callback) s = get_and_incref oid callback s"
| "handle (Decref object_id) s = decref object_id s"
| "handle (OnObjectStartupComplete object_id obj) s = on_object_startup_complete object_id obj s"
| "handle (OnObjectCleanupComplete object_id obj) s = on_object_cleanup_complete object_id obj s"

fun run ::
  "('id, 'cb) message list \<Rightarrow> ('id, 'cb::linorder) reference_manager
     \<Rightarrow> error + ('id, 'cb) reference_manager" where
  "run [] s = Inr s"
| "run (m # ms) s = (case handle m s of Inl e \<Rightarrow> Inl e | Inr s' \<Rightarrow> run ms s')"

inductive manager_reachable :: "('id, 'cb::linorder) reference_manager \<Rightarrow> bool" where
  manager_start: "manager_reachable manager_init"
| manager_step: "manager_reachable s \<Longrightarrow> handle m s = Inr t \<Longrightarrow> manager_reachable t"

subsection \<open>RefHelper\<close>

text \<open>
  The calls a helper makes on its collaborators: \<^verbatim>\<open>self._ref_mgr.get_and_incref(obj_id,
  callback=cb, async=True)\<close> (the callback is always the helper's own
  \<^verbatim>\<open>on_ref_acquired\<close>), \<^verbatim>\<open>self._ref_mgr.decref(obj_id)\<close> and
  \<^verbatim>\<open>self._ready_callback()\<close>.
\<close>

datatype 'id helper_call =
    CallGetAndIncref 'id
  | CallDecref 'id
  | CallReady

text \<open>
  \<^verbatim>\<open>required_refs\<close> and \<^verbatim>\<open>pending_increfs\<close> are Python sets, \<^verbatim>\<open>acquired_refs\<close> is a
  dict; all three are finite by construction, which matters because \<^verbatim>\<open>ready\<close> takes
  their \<^verbatim>\<open>len\<close>.
\<close>

record ('id, 'obj) ref_helper =
  required_refs :: "'id fset"
  pending_increfs :: "'id fset"
  acquired_refs :: "('id, 'obj) fmap"
  calls :: "'id helper_call list"

definition helper_init :: "('id, 'obj) ref_helper" where
  "helper_init =
     \<lparr>required_refs = {||}, pending_increfs = {||}, acquired_refs = fmempty, calls = []\<rparr>"

definition ready :: "('id, 'obj) ref_helper \<Rightarrow> bool" where
  "ready h \<longleftrightarrow> fcard (required_refs h) = fcard (fmdom (acquired_refs h))"

definition acquire_ref :: "'id \<Rightarrow> ('id, 'obj) ref_helper \<Rightarrow> ('id, 'obj) ref_helper" where
  "acquire_ref obj_id h =
     (if obj_id |\<notin>| required_refs h then
        let h1 = h\<lparr>required_refs := finsert obj_id (required_refs h)\<rparr> in
        if obj_id |\<notin>| pending_increfs h1 then
          h1\<lparr>pending_increfs := finsert obj_id (pending_increfs h1),
             calls := calls h1 @ [CallGetAndIncref obj_id]\<rparr>
        else h1
      else h)"

definition discard_ref :: "'id \<Rightarrow> ('id, 'obj) ref_helper \<Rightarrow> ('id, 'obj) ref_helper" where
  "discard_ref obj_id h =
     (if obj_id |\<in>| required_refs h then
        let h1 = h\<lparr>required_refs := required_refs h |-| {|obj_id|},
                   acquired_refs := fmdrop obj_id (acquired_refs h)\<rparr> in
        if obj_id |\<notin>| pending_increfs h1 then
          h1\<lparr>calls := calls h1 @ [CallDecref obj_id]\<rparr>
        else h1
      else h)"

text \<open>
  \<^verbatim>\<open>discard_all\<close> walks a snapshot \<^verbatim>\<open>list(self.required_refs)\<close>. Python leaves the
  order of that list open; the model walks it in ascending order, and no theorem below
  depends on the order.
\<close>

definition discard_all :: "('id::linorder, 'obj) ref_helper \<Rightarrow> ('id, 'obj) ref_helper" where
  "discard_all h = fold discard_ref (sorted_list_of_fset (required_refs h)) h"

definition on_ref_acquired ::
  "'id \<Rightarrow> 'obj \<Rightarrow> ('id, 'obj) ref_helper \<Rightarrow> ('id, 'obj) ref_helper" where
  "on_ref_acquired obj_id obj h =
     (let was_ready = ready h;
          h1 = h\<lparr>pending_increfs := pending_increfs h |-| {|obj_id|}\<rparr>;
          h2 = (if obj_id |\<in>| required_refs h1
                then h1\<lparr>acquired_refs := fmupd obj_id obj (acquired_refs h1)\<rparr>
                else h1\<lparr>calls := calls h1 @ [CallDecref obj_id]\<rparr>);
          now_ready = ready h2
      in if \<not> was_ready \<and> now_ready then h2\<lparr>calls := calls h2 @ [CallReady]\<rparr> else h2)"

text \<open>
  The states a helper can be in: the state after \<^verbatim>\<open>__init__\<close>, closed under its four
  mutating entry points called with any arguments.
\<close>

inductive helper_reachable :: "('id::linorder, 'obj) ref_helper \<Rightarrow> bool" where
  helper_start: "helper_reachable helper_init"
| helper_acquire: "helper_reachable h \<Longrightarrow> helper_reachable (acquire_ref obj_id h)"
| helper_discard: "helper_reachable h \<Longrightarrow> helper_reachable (discard_ref obj_id h)"
| helper_discard_all: "helper_reachable h \<Longrightarrow> helper_reachable (discard_all h)"
| helper_acquired: "helper_reachable h \<Longrightarrow> helper_reachable (on_ref_acquired obj_id obj h)"

section \<open>Notions used in the statements and proofs\<close>

definition refers :: "('id, 'cb) reference_manager \<Rightarrow> 'id \<Rightarrow> obj \<Rightarrow> bool" where
  "refers s i obj \<longleftrightarrow>
     objects_by_id s i = Some obj \<or> obj |\<in>| defaultdict_get (stopping_objects_by_id s) i"

definition wf_at :: "('id, 'cb) reference_manager \<Rightarrow> 'id \<Rightarrow> bool" where
  "wf_at s i \<longleftrightarrow>
     (\<forall>obj. objects_by_id s i = Some obj \<longrightarrow>
        ref_mgmt_state (heap s obj) \<noteq> STOPPING \<and> 1 \<le> ref_count (heap s obj) \<and>
        (stopping_objects_by_id s i \<noteq> None \<longrightarrow> ref_mgmt_state (heap s obj) = CREATED)) \<and>
     (\<forall>obj. obj |\<in>| defaultdict_get (stopping_objects_by_id s) i \<longrightarrow>
        ref_mgmt_state (heap s obj) = STOPPING) \<and>
     (\<forall>obj. refers s i obj \<longrightarrow> obj < next_obj s \<and> actor_id (heap s obj) = Some i) \<and>
     stopping_objects_by_id s i \<noteq> Some {||} \<and>
     (pending_ref_callbacks s i \<noteq> None \<longrightarrow> objects_by_id s i \<noteq> None)"

definition started_at :: "('id, 'cb) reference_manager \<Rightarrow> 'id \<Rightarrow> bool" where
  "started_at s i \<longleftrightarrow>
     (\<forall>obj. objects_by_id s i = Some obj \<longrightarrow> ref_mgmt_state (heap s obj) = CREATED \<longrightarrow>
        stopping_objects_by_id s i \<noteq> None)"

definition notified_at :: "('id, 'cb) reference_manager \<Rightarrow> 'id \<Rightarrow> bool" where
  "notified_at s i \<longleftrightarrow>
     (\<forall>obj. objects_by_id s i = Some obj \<longrightarrow> pending_ref_callbacks s i \<noteq> None \<longrightarrow>
        ref_mgmt_state (heap s obj) \<noteq> LIVE)"

definition manager_inv :: "('id, 'cb) reference_manager \<Rightarrow> bool" where
  "manager_inv s \<longleftrightarrow> (\<forall>i. wf_at s i \<and> started_at s i \<and> notified_at s i)"

definition same_at ::
  "'id \<Rightarrow> ('id, 'cb) reference_manager \<Rightarrow> ('id, 'cb) reference_manager \<Rightarrow> bool" where
  "same_at j s t \<longleftrightarrow>
     objects_by_id t j = objects_by_id s j \<and>
     stopping_objects_by_id t j = stopping_objects_by_id s j \<and>
     pending_ref_callbacks t j = pending_ref_callbacks s j \<and>
     (\<forall>obj. refers s j obj \<longrightarrow> heap t obj = heap s obj) \<and>
     next_obj s \<le> next_obj t"

definition emitted ::
  "('id, 'cb) reference_manager \<Rightarrow> ('id, 'cb) reference_manager \<Rightarrow> ('id, 'cb) effect list" where
  "emitted s t = drop (length (effects s)) (effects t)"

definition pending_with ::
  "'id \<Rightarrow> 'cb option \<Rightarrow> ('id, 'cb) reference_manager \<Rightarrow> ('id \<rightharpoonup> 'cb fset)" where
  "pending_with object_id callback s =
     (case callback of
        None \<Rightarrow> pending_ref_callbacks s
      | Some cb \<Rightarrow> (pending_ref_callbacks s)
          (object_id \<mapsto> finsert cb (defaultdict_get (pending_ref_callbacks s) object_id)))"

definition incref_prefix ::
  "'id \<Rightarrow> 'cb option \<Rightarrow> ('id, 'cb) reference_manager \<Rightarrow> ('id, 'cb) reference_manager" where
  "incref_prefix i cb s =
     (case objects_by_id s i of
        None \<Rightarrow>
          s\<lparr>heap := (heap s)(next_obj s :=
                \<lparr>actor_id = Some i, ref_mgmt_state = CREATED, ref_count = 1\<rparr>),
            next_obj := Suc (next_obj s),
            effects := effects s @ [Create i (next_obj s)],
            objects_by_id := (objects_by_id s)(i \<mapsto> next_obj s),
            pending_ref_callbacks := pending_with i cb s\<rparr>
      | Some obj \<Rightarrow>
          s\<lparr>heap := (heap s)(obj := (heap s obj)\<lparr>ref_count := ref_count (heap s obj) + 1\<rparr>),
            pending_ref_callbacks := pending_with i cb s\<rparr>)"

definition current_ref_count :: "('id, 'cb) reference_manager \<Rightarrow> 'id \<Rightarrow> int" where
  "current_ref_count s i = (case objects_by_id s i of None \<Rightarrow> 0 | Some obj \<Rightarrow> ref_count (heap s obj))"

definition acquires :: "'id \<Rightarrow> ('id, 'cb) message list \<Rightarrow> nat" where
  "acquires i ms =
     length (filter (\<lambda>m. case m of GetAndIncref oid cb \<Rightarrow> oid = Some i | _ \<Rightarrow> False) ms)"

definition releases :: "'id \<Rightarrow> ('id, 'cb) message list \<Rightarrow> nat" where
  "releases i ms = length (filter (\<lambda>m. case m of Decref j \<Rightarrow> j = i | _ \<Rightarrow> False) ms)"

fun target :: "('id, 'cb) message \<Rightarrow> 'id option" where
  "target (GetAndIncref oid cb) = oid"
| "target (Decref i) = Some i"
| "target (OnObjectStartupComplete i obj) = Some i"
| "target (OnObjectCleanupComplete i obj) = Some i"

definition helper_inv :: "('id, 'obj) ref_helper \<Rightarrow> bool" where
  "helper_inv h \<longleftrightarrow> fmdom (acquired_refs h) |\<subseteq>| required_refs h"

definition issued :: "('id, 'obj) ref_helper \<Rightarrow> ('id, 'obj) ref_helper \<Rightarrow> 'id helper_call list" where
  "issued h h' = drop (length (calls h)) (calls h')"

definition helper_example :: "(nat, nat) ref_helper" where
  "helper_example = acquire_ref 2 (on_ref_acquired 1 0 (acquire_ref 1 helper_init))"

section \<open>Proofs\<close>

lemmas setters = set_ref_count_def set_ref_mgmt_state_def emit_def

lemma manager_inv_init: "manager_inv manager_init"
  by (simp add: manager_inv_def wf_at_def started_at_def notified_at_def manager_init_def
        refers_def defaultdict_get_def)

lemma same_at_refl [simp]: "same_at j s s"
  by (simp add: same_at_def)

lemma same_at_refers: "same_at j s t \<Longrightarrow> refers t j obj = refers s j obj"
  by (simp add: same_at_def refers_def defaultdict_get_def)

lemma same_at_trans: "same_at j s t \<Longrightarrow> same_at j t u \<Longrightarrow> same_at j s u"
  unfolding same_at_def refers_def defaultdict_get_def by auto

lemma same_at_wf: "same_at j s t \<Longrightarrow> wf_at s j \<Longrightarrow> wf_at t j"
  unfolding same_at_def wf_at_def refers_def defaultdict_get_def
  by (auto split: option.splits)

lemma same_at_started: "same_at j s t \<Longrightarrow> started_at s j \<Longrightarrow> started_at t j"
  unfolding same_at_def started_at_def refers_def by auto

lemma same_at_notified: "same_at j s t \<Longrightarrow> notified_at s j \<Longrightarrow> notified_at t j"
  unfolding same_at_def notified_at_def refers_def by auto

lemma refers_owner: "wf_at s j \<Longrightarrow> refers s j obj \<Longrightarrow> actor_id (heap s obj) = Some j"
  and refers_allocated: "wf_at s j \<Longrightarrow> refers s j obj \<Longrightarrow> obj < next_obj s"
  unfolding wf_at_def by blast+

lemma same_at_heap_update:
  assumes "wf_at s j" and "actor_id (heap s a) \<noteq> Some j \<or> next_obj s \<le> a"
    and "objects_by_id t j = objects_by_id s j"
    and "stopping_objects_by_id t j = stopping_objects_by_id s j"
    and "pending_ref_callbacks t j = pending_ref_callbacks s j"
    and "heap t = (heap s)(a := x)" and "next_obj s \<le> next_obj t"
  shows "same_at j s t"
proof -
  have "obj \<noteq> a" if "refers s j obj" for obj
    using refers_owner[OF assms(1) that] refers_allocated[OF assms(1) that] assms(2) by auto
  with assms(3-7) show ?thesis by (simp add: same_at_def)
qed

lemma same_at_heap_same:
  assumes "objects_by_id t j = objects_by_id s j"
    and "stopping_objects_by_id t j = stopping_objects_by_id s j"
    and "pending_ref_callbacks t j = pending_ref_callbacks s j"
    and "heap t = heap s" and "next_obj s \<le> next_obj t"
  shows "same_at j s t"
  using assms by (simp add: same_at_def)

lemma maybe_start_cases:
  obtains (started) obj where "objects_by_id s i = Some obj"
      "ref_mgmt_state (heap s obj) = CREATED" "stopping_objects_by_id s i = None"
      "maybe_start i s = emit [Start obj, OnObjectStarted i obj] (set_ref_mgmt_state obj STARTING s)"
  | (idle) "maybe_start i s = s"
      "\<And>obj. objects_by_id s i = Some obj \<Longrightarrow> ref_mgmt_state (heap s obj) = CREATED \<Longrightarrow>
         stopping_objects_by_id s i \<noteq> None"
proof (cases "objects_by_id s i")
  case None
  then show ?thesis by (intro idle) (simp_all add: maybe_start_def)
next
  case (Some obj)
  show ?thesis
  proof (cases "ref_mgmt_state (heap s obj) = CREATED \<and> stopping_objects_by_id s i = None")
    case True
    with Some show ?thesis by (intro started[of obj]) (simp_all add: maybe_start_def domIff)
  next
    case False
    with Some show ?thesis by (intro idle) (auto simp: maybe_start_def domIff)
  qed
qed

lemma maybe_notify_referrers_cases:
  obtains (absent) "objects_by_id s i = None" "maybe_notify_referrers i s = Inl AttributeError"
  | (notify) obj where "objects_by_id s i = Some obj" "ref_mgmt_state (heap s obj) = LIVE"
      "maybe_notify_referrers i s =
         Inr ((emit (map (\<lambda>cb. Spawn cb i obj)
                 (sorted_list_of_fset (defaultdict_get (pending_ref_callbacks s) i))) s)
              \<lparr>pending_ref_callbacks := (pending_ref_callbacks s)(i := None)\<rparr>)"
  | (wait) obj where "objects_by_id s i = Some obj" "ref_mgmt_state (heap s obj) \<noteq> LIVE"
      "maybe_notify_referrers i s = Inr s"
proof (cases "objects_by_id s i")
  case None
  then show ?thesis by (intro absent) (simp_all add: maybe_notify_referrers_def)
next
  case (Some obj)
  show ?thesis
  proof (cases "ref_mgmt_state (heap s obj) = LIVE")
    case True
    with Some show ?thesis
      by (intro notify[of obj]) (simp_all add: maybe_notify_referrers_def Let_def setters)
  next
    case False
    with Some show ?thesis by (intro wait[of obj]) (simp_all add: maybe_notify_referrers_def)
  qed
qed

lemma current_owner: "wf_at s i \<Longrightarrow> objects_by_id s i = Some obj \<Longrightarrow> actor_id (heap s obj) = Some i"
  by (rule refers_owner) (simp_all add: refers_def)

subsection \<open>maybe_start\<close>

lemma maybe_start_same:
  assumes "wf_at s i" "wf_at s j" "j \<noteq> i"
  shows "same_at j s (maybe_start i s)"
proof (cases rule: maybe_start_cases[of s i])
  case (started obj)
  from current_owner[OF assms(1) started(1)] assms(3)
  have "actor_id (heap s obj) \<noteq> Some j" by simp
  then show ?thesis
    unfolding started(4)
    by (intro same_at_heap_update[OF assms(2), of obj]) (simp_all add: setters)
next
  case idle
  then show ?thesis by simp
qed

lemma maybe_start_at:
  assumes "wf_at s i"
  shows "wf_at (maybe_start i s) i" "started_at (maybe_start i s) i"
    "notified_at s i \<Longrightarrow> notified_at (maybe_start i s) i"
proof (atomize (full), cases rule: maybe_start_cases[of s i])
  case (started obj)
  show "wf_at (maybe_start i s) i \<and> started_at (maybe_start i s) i \<and>
    (notified_at s i \<longrightarrow> notified_at (maybe_start i s) i)"
    using assms started(1-3) unfolding started(4) wf_at_def started_at_def notified_at_def refers_def
    by (auto simp: setters defaultdict_get_def)
next
  case idle
  from idle(2) have "started_at s i" by (auto simp: started_at_def)
  with assms show "wf_at (maybe_start i s) i \<and> started_at (maybe_start i s) i \<and>
    (notified_at s i \<longrightarrow> notified_at (maybe_start i s) i)"
    by (simp add: idle(1))
qed

lemma maybe_start_inv:
  assumes wf: "\<And>j. wf_at s j" and st: "\<And>j. j \<noteq> i \<Longrightarrow> started_at s j"
  shows "wf_at (maybe_start i s) j" "started_at (maybe_start i s) j"
    "notified_at s j \<Longrightarrow> notified_at (maybe_start i s) j"
proof -
  show "wf_at (maybe_start i s) j"
    by (cases "j = i") (auto intro: maybe_start_at wf same_at_wf[OF maybe_start_same])
  show "started_at (maybe_start i s) j"
    by (cases "j = i") (auto intro: maybe_start_at wf st same_at_started[OF maybe_start_same])
  show "notified_at (maybe_start i s) j" if "notified_at s j"
    using that
    by (cases "j = i") (auto intro: maybe_start_at wf same_at_notified[OF maybe_start_same])
qed

subsection \<open>maybe_notify_referrers\<close>

lemma maybe_notify_referrers_same:
  assumes "maybe_notify_referrers i s = Inr t" "j \<noteq> i"
  shows "same_at j s t"
  using assms
  by (cases rule: maybe_notify_referrers_cases[of s i]) (auto simp: same_at_def setters)

lemma maybe_notify_referrers_at:
  assumes "maybe_notify_referrers i s = Inr t" "wf_at s i" "started_at s i"
  shows "wf_at t i \<and> started_at t i \<and> notified_at t i"
proof (cases rule: maybe_notify_referrers_cases[of s i])
  case absent
  with assms(1) show ?thesis by simp
next
  case (notify obj)
  with assms(1) have t: "t = (emit (map (\<lambda>cb. Spawn cb i obj)
                 (sorted_list_of_fset (defaultdict_get (pending_ref_callbacks s) i))) s)
              \<lparr>pending_ref_callbacks := (pending_ref_callbacks s)(i := None)\<rparr>" by simp
  show ?thesis
    using assms(2,3) unfolding t wf_at_def started_at_def notified_at_def refers_def
    by (simp add: setters)
next
  case (wait obj)
  with assms(1) have t: "t = s" by simp
  from wait have "notified_at s i" by (simp add: notified_at_def)
  with assms(2,3) show ?thesis by (simp add: t)
qed

lemma maybe_notify_referrers_inv:
  assumes step: "maybe_notify_referrers i s = Inr t"
    and wf: "\<And>j. wf_at s j" and st: "\<And>j. started_at s j"
    and nt: "\<And>j. j \<noteq> i \<Longrightarrow> notified_at s j"
  shows "manager_inv t"
  unfolding manager_inv_def
proof
  fix j
  show "wf_at t j \<and> started_at t j \<and> notified_at t j"
  proof (cases "j = i")
    case True
    with maybe_notify_referrers_at[OF step wf st] show ?thesis by simp
  next
    case False
    note same = maybe_notify_referrers_same[OF step False]
    from same_at_wf[OF same wf] same_at_started[OF same st] same_at_notified[OF same nt[OF False]]
    show ?thesis by simp
  qed
qed

lemma pending_with_other [simp]: "j \<noteq> i \<Longrightarrow> pending_with i cb s j = pending_ref_callbacks s j"
  by (simp add: pending_with_def split: option.splits)

lemma pending_with_None [simp]: "pending_with i None s = pending_ref_callbacks s"
  by (simp add: pending_with_def)

lemma pending_with_Some [simp]:
  "pending_with i (Some c) s i = Some (finsert c (defaultdict_get (pending_ref_callbacks s) i))"
  by (simp add: pending_with_def)

lemma get_and_incref_decompose:
  "get_and_incref (Some i) cb s = maybe_notify_referrers i (maybe_start i (incref_prefix i cb s))"
proof -
  have "(let (obj, s1) =
                (case objects_by_id s i of
                   None \<Rightarrow>
                     let (obj, s') = create i s;
                         s'' = s'\<lparr>heap := (heap s')(obj := (heap s' obj)\<lparr>actor_id := Some i\<rparr>)\<rparr>
                     in (obj, s''\<lparr>objects_by_id := (objects_by_id s'')(i \<mapsto> obj)\<rparr>)
                 | Some obj \<Rightarrow> (obj, s));
              s2 = (case cb of
                      None \<Rightarrow> s1
                    | Some c \<Rightarrow>
                        s1\<lparr>pending_ref_callbacks := (pending_ref_callbacks s1)
                             (i \<mapsto> finsert c (defaultdict_get (pending_ref_callbacks s1) i))\<rparr>)
          in set_ref_count obj (ref_count (heap s2 obj) + 1) s2) = incref_prefix i cb s"
    by (cases s; cases cb)
       (simp_all add: incref_prefix_def create_def setters new_actor_def pending_with_def
          split: option.splits)
  then show ?thesis
    by (simp add: get_and_incref_def Let_def split: prod.splits)
qed

lemma incref_prefix_same:
  assumes "wf_at s i" "wf_at s j" "j \<noteq> i"
  shows "same_at j s (incref_prefix i cb s)"
proof (cases "objects_by_id s i")
  case None
  then show ?thesis
    using assms(3)
    by (intro same_at_heap_update[OF assms(2), of "next_obj s"]) (simp_all add: incref_prefix_def)
next
  case (Some obj)
  from current_owner[OF assms(1) Some] assms(3)
  have "actor_id (heap s obj) \<noteq> Some j" by simp
  then show ?thesis
    using assms(3) Some
    by (intro same_at_heap_update[OF assms(2), of obj]) (simp_all add: incref_prefix_def)
qed

lemma incref_prefix_at:
  assumes "wf_at s i"
  shows "wf_at (incref_prefix i cb s) i"
proof (cases "objects_by_id s i")
  case None
  have "obj \<noteq> next_obj s" if "refers s i obj" for obj
    using refers_allocated[OF assms that] by simp
  then show ?thesis
    using assms None unfolding wf_at_def refers_def
    by (auto simp: incref_prefix_def defaultdict_get_def split: option.splits)
next
  case (Some obj)
  then show ?thesis
    using assms unfolding wf_at_def refers_def
    by (cases cb) (auto simp: incref_prefix_def defaultdict_get_def split: option.splits)
qed

lemma inv_get_and_incref:
  assumes inv: "manager_inv s" and step: "get_and_incref oid cb s = Inr t"
  shows "manager_inv t"
proof (cases oid)
  case None
  with step show ?thesis by (simp add: get_and_incref_def)
next
  case (Some i)
  let ?p = "incref_prefix i cb s"
  from inv have wf: "wf_at s j" and st: "started_at s j" and nt: "notified_at s j" for j
    by (simp_all add: manager_inv_def)
  have same: "same_at j s ?p" if "j \<noteq> i" for j
    using wf wf that by (rule incref_prefix_same)
  have wf': "wf_at ?p j" for j
    by (cases "j = i") (auto intro: incref_prefix_at wf same_at_wf[OF same])
  have st': "started_at ?p j" if "j \<noteq> i" for j
    using same[OF that] st by (rule same_at_started)
  have nt': "notified_at ?p j" if "j \<noteq> i" for j
    using same[OF that] nt by (rule same_at_notified)
  from step Some have "maybe_notify_referrers i (maybe_start i ?p) = Inr t"
    by (simp add: get_and_incref_decompose)
  then show ?thesis
  proof (rule maybe_notify_referrers_inv)
    show "wf_at (maybe_start i ?p) j" for j using wf' st' by (rule maybe_start_inv)
    show "started_at (maybe_start i ?p) j" for j using wf' st' by (rule maybe_start_inv)
    show "notified_at (maybe_start i ?p) j" if "j \<noteq> i" for j
      using wf' st' nt'[OF that] by (rule maybe_start_inv)
  qed
qed

subsection \<open>on_object_startup_complete\<close>

lemma inv_on_object_startup_complete:
  assumes inv: "manager_inv s" and step: "on_object_startup_complete i obj s = Inr t"
  shows "manager_inv t"
proof (cases "objects_by_id s i = Some obj \<and> ref_mgmt_state (heap s obj) = STARTING")
  case False
  with step have "t = s" by (auto simp: on_object_startup_complete_def split: if_splits)
  with inv show ?thesis by simp
next
  case True
  let ?p = "set_ref_mgmt_state obj LIVE s"
  from inv have wf: "wf_at s j" and st: "started_at s j" and nt: "notified_at s j" for j
    by (simp_all add: manager_inv_def)
  have same: "same_at j s ?p" if "j \<noteq> i" for j
  proof -
    from current_owner[OF wf] True that have "actor_id (heap s obj) \<noteq> Some j" by auto
    then show ?thesis
      by (intro same_at_heap_update[OF wf, of obj]) (simp_all add: setters)
  qed
  have at: "wf_at ?p i \<and> started_at ?p i"
    using wf[of i] True unfolding wf_at_def started_at_def refers_def
    by (auto simp: setters defaultdict_get_def split: option.splits)
  from step True have "maybe_notify_referrers i ?p = Inr t"
    by (simp add: on_object_startup_complete_def)
  then show ?thesis
  proof (rule maybe_notify_referrers_inv)
    show "wf_at ?p j" for j
      by (cases "j = i") (auto simp: at intro: same_at_wf[OF same wf])
    show "started_at ?p j" for j
      by (cases "j = i") (auto simp: at intro: same_at_started[OF same st])
    show "notified_at ?p j" if "j \<noteq> i" for j
      using same[OF that] nt by (rule same_at_notified)
  qed
qed

lemma decref_cases:
  assumes "decref i s = Inr t"
  obtains (keep) obj where "objects_by_id s i = Some obj" "1 < ref_count (heap s obj)"
      "t = set_ref_count obj (ref_count (heap s obj) - 1) s"
  | (discard) obj where "objects_by_id s i = Some obj" "ref_count (heap s obj) = 1"
      "ref_mgmt_state (heap s obj) = CREATED"
      "t = (set_ref_count obj 0 s)
             \<lparr>objects_by_id := (objects_by_id s)(i := None),
              pending_ref_callbacks := (pending_ref_callbacks s)(i := None)\<rparr>"
  | (stop) obj where "objects_by_id s i = Some obj" "ref_count (heap s obj) = 1"
      "ref_mgmt_state (heap s obj) \<noteq> CREATED"
      "t = (emit [OnUnreferenced obj] (set_ref_mgmt_state obj STOPPING (set_ref_count obj 0 s)))
             \<lparr>stopping_objects_by_id := (stopping_objects_by_id s)
                 (i \<mapsto> finsert obj (defaultdict_get (stopping_objects_by_id s) i)),
              objects_by_id := (objects_by_id s)(i := None),
              pending_ref_callbacks := (pending_ref_callbacks s)(i := None)\<rparr>"
proof (cases "objects_by_id s i")
  case None
  with assms show ?thesis by (simp add: decref_def)
next
  case (Some obj)
  consider "ref_count (heap s obj) < 1" | "ref_count (heap s obj) = 1" | "1 < ref_count (heap s obj)"
    by linarith
  then show ?thesis
  proof cases
    case 1
    with assms Some show ?thesis by (simp add: decref_def Let_def setters)
  next
    case 2
    show ?thesis
    proof (cases "ref_mgmt_state (heap s obj) = CREATED")
      case True
      with assms Some 2 show ?thesis
        by (intro discard[of obj]) (auto simp: decref_def Let_def setters)
    next
      case False
      with assms Some 2 show ?thesis
        by (intro stop[of obj]) (auto simp: decref_def Let_def setters)
    qed
  next
    case 3
    with assms Some show ?thesis
      by (intro keep[of obj]) (auto simp: decref_def Let_def setters)
  qed
qed

lemma decref_same:
  assumes step: "decref i s = Inr t" and "wf_at s i" "wf_at s j" "j \<noteq> i"
  shows "same_at j s t"
  using step
proof (cases rule: decref_cases)
  case (keep obj)
  from current_owner[OF assms(2) keep(1)] assms(4)
  have "actor_id (heap s obj) \<noteq> Some j" by simp
  then show ?thesis
    by (intro same_at_heap_update[OF assms(3), of obj]) (simp_all add: keep(3) setters)
next
  case (discard obj)
  from current_owner[OF assms(2) discard(1)] assms(4)
  have "actor_id (heap s obj) \<noteq> Some j" by simp
  then show ?thesis
    using assms(4)
    by (intro same_at_heap_update[OF assms(3), of obj]) (simp_all add: discard(4) setters)
next
  case (stop obj)
  from current_owner[OF assms(2) stop(1)] assms(4)
  have "actor_id (heap s obj) \<noteq> Some j" by simp
  then show ?thesis
    using assms(4)
    by (intro same_at_heap_update[OF assms(3), of obj]) (simp_all add: stop(4) setters)
qed

lemma wf_at_draining:
  assumes "wf_at s i" "obj |\<in>| defaultdict_get (stopping_objects_by_id s) i"
  shows "ref_mgmt_state (heap s obj) = STOPPING" "obj < next_obj s" "actor_id (heap s obj) = Some i"
  using assms unfolding wf_at_def refers_def by blast+

lemma wf_at_current:
  assumes "wf_at s i" "objects_by_id s i = Some obj"
  shows "ref_mgmt_state (heap s obj) \<noteq> STOPPING" "1 \<le> ref_count (heap s obj)"
    "obj < next_obj s" "actor_id (heap s obj) = Some i"
    "stopping_objects_by_id s i \<noteq> None \<Longrightarrow> ref_mgmt_state (heap s obj) = CREATED"
  using assms unfolding wf_at_def refers_def by blast+

lemma pending_current:
  "wf_at s i \<Longrightarrow> pending_ref_callbacks s i = Some cbs \<Longrightarrow> objects_by_id s i \<noteq> None"
  unfolding wf_at_def by simp

lemma decref_at:
  assumes step: "decref i s = Inr t" and wf: "wf_at s i" and st: "started_at s i"
    and nt: "notified_at s i"
  shows "wf_at t i \<and> started_at t i \<and> notified_at t i"
  using step
proof (cases rule: decref_cases)
  case (keep obj)
  then show ?thesis
    using wf st nt unfolding wf_at_def started_at_def notified_at_def refers_def
    by (auto simp: setters)
next
  case (discard obj)
  then show ?thesis
    using wf unfolding wf_at_def started_at_def notified_at_def refers_def
    by (auto simp: setters)
next
  case (stop obj)
  define S where "S = defaultdict_get (stopping_objects_by_id s) i"
  have t: "objects_by_id t i = None" "pending_ref_callbacks t i = None"
    "stopping_objects_by_id t i = Some (finsert obj S)" "next_obj t = next_obj s"
    "heap t = (heap s)(obj := (heap s obj)\<lparr>ref_count := 0, ref_mgmt_state := STOPPING\<rparr>)"
    by (simp_all add: stop(4) setters S_def)
  have S: "ref_mgmt_state (heap s x) = STOPPING \<and> x < next_obj s \<and> actor_id (heap s x) = Some i"
    if "x |\<in>| S" for x
    using wf_at_draining[OF wf that[unfolded S_def]] by simp
  note cur = wf_at_current[OF wf stop(1)]
  have "wf_at t i"
    unfolding wf_at_def refers_def t defaultdict_get_def using S cur(3,4) by auto
  moreover have "started_at t i" "notified_at t i"
    by (simp_all add: started_at_def notified_at_def t)
  ultimately show ?thesis by simp
qed

lemma inv_decref:
  assumes inv: "manager_inv s" and step: "decref i s = Inr t"
  shows "manager_inv t"
  unfolding manager_inv_def
proof
  fix j
  from inv have wf: "wf_at s j" and st: "started_at s j" and nt: "notified_at s j" for j
    by (simp_all add: manager_inv_def)
  show "wf_at t j \<and> started_at t j \<and> notified_at t j"
  proof (cases "j = i")
    case True
    with decref_at[OF step wf st nt] show ?thesis by simp
  next
    case False
    note same = decref_same[OF step wf wf False]
    from same_at_wf[OF same wf] same_at_started[OF same st] same_at_notified[OF same nt]
    show ?thesis by simp
  qed
qed

subsection \<open>on_object_cleanup_complete\<close>

lemma on_object_cleanup_complete_cases:
  obtains (emptied) "defaultdict_get (stopping_objects_by_id s) i |-| {|obj|} = {||}"
      "on_object_cleanup_complete i obj s =
         Inr (maybe_start i (s\<lparr>stopping_objects_by_id := (stopping_objects_by_id s)(i := None)\<rparr>))"
  | (remaining) "defaultdict_get (stopping_objects_by_id s) i |-| {|obj|} \<noteq> {||}"
      "on_object_cleanup_complete i obj s =
         Inr (s\<lparr>stopping_objects_by_id := (stopping_objects_by_id s)
                  (i \<mapsto> defaultdict_get (stopping_objects_by_id s) i |-| {|obj|})\<rparr>)"
proof (cases "defaultdict_get (stopping_objects_by_id s) i |-| {|obj|} = {||}")
  case True
  then show ?thesis
    by (intro emptied) (simp_all add: on_object_cleanup_complete_def Let_def defaultdict_get_def)
next
  case False
  then show ?thesis
    by (intro remaining) (simp_all add: on_object_cleanup_complete_def Let_def defaultdict_get_def)
qed

lemma inv_on_object_cleanup_complete:
  assumes inv: "manager_inv s" and step: "on_object_cleanup_complete i obj s = Inr t"
  shows "manager_inv t"
proof -
  from inv have wf: "wf_at s j" and st: "started_at s j" and nt: "notified_at s j" for j
    by (simp_all add: manager_inv_def)
  show ?thesis
  proof (cases rule: on_object_cleanup_complete_cases[of s i obj])
    case emptied
    let ?p = "s\<lparr>stopping_objects_by_id := (stopping_objects_by_id s)(i := None)\<rparr>"
    from step emptied have t: "t = maybe_start i ?p" by simp
    have same: "same_at j s ?p" if "j \<noteq> i" for j
      using that by (intro same_at_heap_same) simp_all
    have "wf_at ?p i"
      using wf_at_current[OF wf[of i]] unfolding wf_at_def refers_def
      by (auto simp: defaultdict_get_def dest: pending_current[OF wf[of i]])
    moreover have "notified_at ?p i"
      using nt[of i] by (simp add: notified_at_def)
    ultimately have at: "wf_at ?p i \<and> notified_at ?p i" by simp
    have wf': "wf_at ?p j" for j
      by (cases "j = i") (auto simp: at intro: same_at_wf[OF same wf])
    have st': "started_at ?p j" if "j \<noteq> i" for j
      using same[OF that] st by (rule same_at_started)
    have nt': "notified_at ?p j" for j
      by (cases "j = i") (auto simp: at intro: same_at_notified[OF same nt])
    show ?thesis
      unfolding manager_inv_def t using maybe_start_inv[of ?p i, OF wf' st'] nt' by blast
  next
    case remaining
    let ?S = "defaultdict_get (stopping_objects_by_id s) i |-| {|obj|}"
    from step remaining have t: "t = s\<lparr>stopping_objects_by_id := (stopping_objects_by_id s)(i \<mapsto> ?S)\<rparr>"
      by simp
    have same: "same_at j s t" if "j \<noteq> i" for j
      using that unfolding t by (intro same_at_heap_same) simp_all
    from remaining(1) obtain S where S: "stopping_objects_by_id s i = Some S"
      by (cases "stopping_objects_by_id s i") (auto simp: defaultdict_get_def)
    then have S': "?S = S |-| {|obj|}" by (simp add: defaultdict_get_def)
    have tf: "objects_by_id t = objects_by_id s" "pending_ref_callbacks t = pending_ref_callbacks s"
      "stopping_objects_by_id t i = Some (S |-| {|obj|})" "next_obj t = next_obj s" "heap t = heap s"
      by (simp_all add: t S')
    have dr: "ref_mgmt_state (heap s x) = STOPPING \<and> x < next_obj s \<and> actor_id (heap s x) = Some i"
      if "x |\<in>| S" for x
      using wf_at_draining[OF wf[of i], of x] that S by (simp add: defaultdict_get_def)
    have "wf_at t i"
      unfolding wf_at_def refers_def tf defaultdict_get_def
      using dr wf_at_current[OF wf[of i]] remaining(1) S' S pending_current[OF wf[of i]] by auto
    moreover have "started_at t i" using st[of i] by (simp add: started_at_def tf)
    moreover have "notified_at t i" using nt[of i] by (simp add: notified_at_def tf)
    ultimately have at: "wf_at t i \<and> started_at t i \<and> notified_at t i" by simp
    show ?thesis
      unfolding manager_inv_def
    proof
      fix j
      show "wf_at t j \<and> started_at t j \<and> notified_at t j"
      proof (cases "j = i")
        case True
        with at show ?thesis by simp
      next
        case False
        from same_at_wf[OF same[OF False] wf] same_at_started[OF same[OF False] st]
          same_at_notified[OF same[OF False] nt]
        show ?thesis by simp
      qed
    qed
  qed
qed

lemma inv_handle: "manager_inv s \<Longrightarrow> handle m s = Inr t \<Longrightarrow> manager_inv t"
  by (cases m)
     (auto intro: inv_get_and_incref inv_decref inv_on_object_startup_complete
        inv_on_object_cleanup_complete)

lemma manager_reachable_inv: "manager_reachable s \<Longrightarrow> manager_inv s"
  by (induction rule: manager_reachable.induct) (auto intro: manager_inv_init inv_handle)

lemma run_append:
  "run (ms @ ms') s = (case run ms s of Inl e \<Rightarrow> Inl e | Inr s' \<Rightarrow> run ms' s')"
  by (induction ms arbitrary: s) (auto split: sum.splits)

lemma run_reachable: "manager_reachable s \<Longrightarrow> run ms s = Inr t \<Longrightarrow> manager_reachable t"
  by (induction ms arbitrary: s) (auto split: sum.splits intro: manager_step)

lemma get_and_incref_same:
  assumes inv: "manager_inv s" and step: "get_and_incref (Some i) cb s = Inr t" and ne: "j \<noteq> i"
  shows "same_at j s t"
proof -
  let ?p = "incref_prefix i cb s"
  from inv have wf: "wf_at s k" for k by (simp add: manager_inv_def)
  have 1: "same_at j s ?p" using wf wf ne by (rule incref_prefix_same)
  have "wf_at ?p i" using wf by (rule incref_prefix_at)
  moreover have "wf_at ?p j" using 1 wf by (rule same_at_wf)
  ultimately have 2: "same_at j ?p (maybe_start i ?p)" using ne by (rule maybe_start_same)
  from step have "maybe_notify_referrers i (maybe_start i ?p) = Inr t"
    by (simp add: get_and_incref_decompose)
  then have 3: "same_at j (maybe_start i ?p) t" using ne by (rule maybe_notify_referrers_same)
  from 1 2 3 show ?thesis by (blast intro: same_at_trans)
qed

lemma on_object_startup_complete_same:
  assumes inv: "manager_inv s" and step: "on_object_startup_complete i obj s = Inr t" and ne: "j \<noteq> i"
  shows "same_at j s t"
proof (cases "objects_by_id s i = Some obj \<and> ref_mgmt_state (heap s obj) = STARTING")
  case False
  with step have "t = s" by (auto simp: on_object_startup_complete_def split: if_splits)
  then show ?thesis by simp
next
  case True
  let ?p = "set_ref_mgmt_state obj LIVE s"
  from inv have wf: "wf_at s k" for k by (simp add: manager_inv_def)
  from current_owner[OF wf] True ne have "actor_id (heap s obj) \<noteq> Some j" by auto
  then have 1: "same_at j s ?p"
    by (intro same_at_heap_update[OF wf, of obj]) (simp_all add: setters)
  from step True have "maybe_notify_referrers i ?p = Inr t"
    by (simp add: on_object_startup_complete_def)
  then have "same_at j ?p t" using ne by (rule maybe_notify_referrers_same)
  with 1 show ?thesis by (rule same_at_trans)
qed

lemma on_object_cleanup_complete_same:
  assumes inv: "manager_inv s" and step: "on_object_cleanup_complete i obj s = Inr t" and ne: "j \<noteq> i"
  shows "same_at j s t"
proof (cases rule: on_object_cleanup_complete_cases[of s i obj])
  case emptied
  let ?p = "s\<lparr>stopping_objects_by_id := (stopping_objects_by_id s)(i := None)\<rparr>"
  from inv have wf: "wf_at s k" for k by (simp add: manager_inv_def)
  from step emptied have t: "t = maybe_start i ?p" by simp
  have 1: "same_at k s ?p" if "k \<noteq> i" for k
    using that by (intro same_at_heap_same) simp_all
  have "wf_at ?p i"
    using wf_at_current[OF wf[of i]] unfolding wf_at_def refers_def
    by (auto simp: defaultdict_get_def dest: pending_current[OF wf[of i]])
  moreover have "wf_at ?p j" using 1[OF ne] wf by (rule same_at_wf)
  ultimately have "same_at j ?p (maybe_start i ?p)" using ne by (rule maybe_start_same)
  with 1[OF ne] show ?thesis unfolding t by (rule same_at_trans)
next
  case remaining
  with step ne show ?thesis by (intro same_at_heap_same) auto
qed

lemma handle_same:
  assumes "manager_inv s" "handle m s = Inr t" "target m \<noteq> Some j"
  shows "same_at j s t"
proof (cases m)
  case (GetAndIncref oid cb)
  with assms(2) obtain i where "oid = Some i"
    by (cases oid) (auto simp: get_and_incref_def)
  with assms GetAndIncref show ?thesis by (auto intro: get_and_incref_same)
next
  case (Decref i)
  with assms show ?thesis by (auto intro: decref_same simp: manager_inv_def)
next
  case (OnObjectStartupComplete i obj)
  with assms show ?thesis by (auto intro: on_object_startup_complete_same)
next
  case (OnObjectCleanupComplete i obj)
  with assms show ?thesis by (auto intro: on_object_cleanup_complete_same)
qed

lemma same_at_current_ref_count: "same_at j s t \<Longrightarrow> current_ref_count t j = current_ref_count s j"
  by (auto simp: same_at_def current_ref_count_def refers_def split: option.splits)

text \<open>Neither helper touches the registry or the count\<close>

lemma maybe_start_current_ref_count [simp]:
  "current_ref_count (maybe_start i s) j = current_ref_count s j"
  by (cases rule: maybe_start_cases[of s i])
     (auto simp: current_ref_count_def setters split: option.splits)

lemma maybe_notify_referrers_current_ref_count:
  "maybe_notify_referrers i s = Inr t \<Longrightarrow> current_ref_count t j = current_ref_count s j"
  by (cases rule: maybe_notify_referrers_cases[of s i])
     (auto simp: current_ref_count_def setters split: option.splits)

lemma incref_prefix_current_ref_count:
  "current_ref_count (incref_prefix i cb s) i = current_ref_count s i + 1"
  by (auto simp: current_ref_count_def incref_prefix_def split: option.splits)

lemma get_and_incref_current_ref_count:
  "get_and_incref (Some i) cb s = Inr t \<Longrightarrow> current_ref_count t i = current_ref_count s i + 1"
  by (simp add: get_and_incref_decompose maybe_notify_referrers_current_ref_count
        incref_prefix_current_ref_count)

lemma decref_current_ref_count:
  assumes "decref i s = Inr t"
  shows "current_ref_count t i = current_ref_count s i - 1"
  using assms by (cases rule: decref_cases) (simp_all add: current_ref_count_def setters)

lemma on_object_startup_complete_current_ref_count:
  assumes "on_object_startup_complete i obj s = Inr t"
  shows "current_ref_count t j = current_ref_count s j"
proof (cases "objects_by_id s i = Some obj \<and> ref_mgmt_state (heap s obj) = STARTING")
  case False
  with assms have "t = s" by (auto simp: on_object_startup_complete_def split: if_splits)
  then show ?thesis by simp
next
  case True
  with assms have "maybe_notify_referrers i (set_ref_mgmt_state obj LIVE s) = Inr t"
    by (simp add: on_object_startup_complete_def)
  then have "current_ref_count t j = current_ref_count (set_ref_mgmt_state obj LIVE s) j"
    by (rule maybe_notify_referrers_current_ref_count)
  also have "\<dots> = current_ref_count s j"
    by (cases "objects_by_id s j") (simp_all add: current_ref_count_def setters)
  finally show ?thesis .
qed

lemma current_ref_count_cong:
  "objects_by_id t = objects_by_id s \<Longrightarrow> heap t = heap s \<Longrightarrow>
   current_ref_count t j = current_ref_count s j"
  by (simp add: current_ref_count_def cong: option.case_cong)

lemma on_object_cleanup_complete_current_ref_count:
  assumes "on_object_cleanup_complete i obj s = Inr t"
  shows "current_ref_count t j = current_ref_count s j"
proof (cases rule: on_object_cleanup_complete_cases[of s i obj])
  case emptied
  with assms have "t = maybe_start i (s\<lparr>stopping_objects_by_id := (stopping_objects_by_id s)(i := None)\<rparr>)"
    by simp
  then have "current_ref_count t j =
      current_ref_count (s\<lparr>stopping_objects_by_id := (stopping_objects_by_id s)(i := None)\<rparr>) j"
    by simp
  also have "\<dots> = current_ref_count s j" by (rule current_ref_count_cong) simp_all
  finally show ?thesis .
next
  case remaining
  with assms have "t = s\<lparr>stopping_objects_by_id := (stopping_objects_by_id s)
                  (i \<mapsto> defaultdict_get (stopping_objects_by_id s) i |-| {|obj|})\<rparr>"
    by simp
  then show ?thesis by (intro current_ref_count_cong) simp_all
qed

lemma handle_current_ref_count:
  assumes inv: "manager_inv s" and step: "handle m s = Inr t"
  shows "current_ref_count t i = current_ref_count s i + int (acquires i [m]) - int (releases i [m])"
proof (cases "target m = Some i")
  case False
  then have "acquires i [m] = 0" "releases i [m] = 0"
    by (cases m; auto simp: acquires_def releases_def)+
  with same_at_current_ref_count[OF handle_same[OF inv step False]] show ?thesis by simp
next
  case True
  then show ?thesis
    using step
    by (cases m)
       (auto simp: acquires_def releases_def get_and_incref_current_ref_count
          decref_current_ref_count on_object_startup_complete_current_ref_count
          on_object_cleanup_complete_current_ref_count)
qed

lemma acquires_append [simp]: "acquires i (ms @ ms') = acquires i ms + acquires i ms'"
  by (simp add: acquires_def)

lemma releases_append [simp]: "releases i (ms @ ms') = releases i ms + releases i ms'"
  by (simp add: releases_def)

lemma run_current_ref_count:
  assumes "manager_reachable s" "run ms s = Inr t"
  shows "current_ref_count t i = current_ref_count s i + int (acquires i ms) - int (releases i ms)"
  using assms
proof (induction ms arbitrary: s)
  case Nil
  then show ?case by (simp add: acquires_def releases_def)
next
  case (Cons m ms)
  from Cons.prems(2) obtain s' where s': "handle m s = Inr s'" "run ms s' = Inr t"
    by (auto split: sum.splits)
  from Cons.prems(1) s'(1) have r: "manager_reachable s'" by (rule manager_step)
  from handle_current_ref_count[OF manager_reachable_inv[OF Cons.prems(1)] s'(1), of i]
    Cons.IH[OF r s'(2)]
  have "current_ref_count t i =
      current_ref_count s i + int (acquires i [m] + acquires i ms) - int (releases i [m] + releases i ms)"
    by simp
  then show ?case
    unfolding acquires_append[symmetric] releases_append[symmetric] by simp
qed

lemma current_ref_count_positive:
  assumes "manager_inv s"
  shows "0 \<le> current_ref_count s i" "current_ref_count s i = 0 \<longleftrightarrow> objects_by_id s i = None"
  using wf_at_current(2)[of s i] assms
  by (auto simp: current_ref_count_def manager_inv_def split: option.splits)

lemma helper_inv_init: "helper_inv helper_init"
  by (simp add: helper_inv_def helper_init_def)

lemma helper_inv_acquire_ref: "helper_inv h \<Longrightarrow> helper_inv (acquire_ref obj_id h)"
  by (auto simp: helper_inv_def acquire_ref_def Let_def)

lemma helper_inv_discard_ref: "helper_inv h \<Longrightarrow> helper_inv (discard_ref obj_id h)"
  by (auto simp: helper_inv_def discard_ref_def Let_def)

lemma helper_inv_fold_discard_ref: "helper_inv h \<Longrightarrow> helper_inv (fold discard_ref ids h)"
  by (induction ids arbitrary: h) (simp_all add: helper_inv_discard_ref)

lemma helper_inv_discard_all: "helper_inv h \<Longrightarrow> helper_inv (discard_all h)"
  by (simp add: discard_all_def helper_inv_fold_discard_ref)

lemma helper_inv_on_ref_acquired: "helper_inv h \<Longrightarrow> helper_inv (on_ref_acquired obj_id obj h)"
  by (auto simp: helper_inv_def on_ref_acquired_def Let_def)

lemma helper_reachable_inv: "helper_reachable h \<Longrightarrow> helper_inv h"
proof (induction rule: helper_reachable.induct)
  case helper_start
  show ?case by (rule helper_inv_init)
next
  case (helper_acquire h obj_id)
  then show ?case by (simp add: helper_inv_acquire_ref)
next
  case (helper_discard h obj_id)
  then show ?case by (simp add: helper_inv_discard_ref)
next
  case (helper_discard_all h)
  then show ?case by (simp add: helper_inv_discard_all)
next
  case (helper_acquired h obj_id obj)
  then show ?case by (simp add: helper_inv_on_ref_acquired)
qed

lemma subset_len_eq:
  fixes A B :: "'a fset"
  assumes "A |\<subseteq>| B"
  shows "fcard B = fcard A \<longleftrightarrow> B = A"
proof
  assume "fcard B = fcard A"
  with assms have "A = B" by (intro fcard_seteq) simp_all
  then show "B = A" by simp
next
  assume "B = A" then show "fcard B = fcard A" by simp
qed

lemma helper_inv_ready: "helper_inv h \<Longrightarrow> ready h \<longleftrightarrow> required_refs h = fmdom (acquired_refs h)"
  unfolding helper_inv_def ready_def by (rule subset_len_eq)

theorem ready_iff_set_equal:
  "helper_reachable h \<Longrightarrow> ready h \<longleftrightarrow> required_refs h = fmdom (acquired_refs h)"
  by (rule helper_inv_ready) (rule helper_reachable_inv)

lemma ready_calls_irrelevant [simp]: "ready (h\<lparr>calls := c\<rparr>) = ready h"
  by (simp add: ready_def)

lemma ready_pending_irrelevant [simp]: "ready (h\<lparr>pending_increfs := c\<rparr>) = ready h"
  by (simp add: ready_def)

lemma issued_on_ref_acquired:
  "issued h (on_ref_acquired obj_id obj h) =
     (if obj_id |\<in>| required_refs h then [] else [CallDecref obj_id]) @
     (if \<not> ready h \<and> ready (on_ref_acquired obj_id obj h) then [CallReady] else [])"
  by (simp add: issued_def on_ref_acquired_def Let_def)

theorem ready_callback:
  assumes "helper_reachable h"
  shows "count_list (issued h (on_ref_acquired obj_id obj h)) CallReady =
           (if \<not> ready h \<and> ready (on_ref_acquired obj_id obj h) then 1 else 0)
       \<and> (CallReady \<in> set (issued h (on_ref_acquired obj_id obj h)) \<longrightarrow>
            (\<forall>i. i |\<in>| required_refs (on_ref_acquired obj_id obj h) \<longrightarrow>
                 fmlookup (acquired_refs (on_ref_acquired obj_id obj h)) i \<noteq> None))"
proof -
  let ?h' = "on_ref_acquired obj_id obj h"
  have "helper_reachable ?h'" using assms by (rule helper_reachable.helper_acquired)
  then have eq: "ready ?h' \<longleftrightarrow> required_refs ?h' = fmdom (acquired_refs ?h')"
    by (intro helper_inv_ready helper_reachable_inv)
  have 1: "count_list (issued h ?h') CallReady = (if \<not> ready h \<and> ready ?h' then 1 else 0)"
    by (simp add: issued_on_ref_acquired)
  have 2: "\<forall>i. i |\<in>| required_refs ?h' \<longrightarrow> fmlookup (acquired_refs ?h') i \<noteq> None"
    if "CallReady \<in> set (issued h ?h')"
  proof -
    from that have "ready ?h'" by (simp add: issued_on_ref_acquired split: if_splits)
    with eq have "required_refs ?h' = fmdom (acquired_refs ?h')" by simp
    then show ?thesis by (auto simp: fmlookup_dom_iff)
  qed
  from 1 2 show ?thesis by blast
qed

theorem acquire_discard_race:
  assumes "obj_id |\<in>| pending_increfs (acquire_ref obj_id h)"
  shows "issued (acquire_ref obj_id h) (discard_ref obj_id (acquire_ref obj_id h)) = []
       \<and> issued (discard_ref obj_id (acquire_ref obj_id h))
            (on_ref_acquired obj_id obj (discard_ref obj_id (acquire_ref obj_id h))) = [CallDecref obj_id]
       \<and> count_list (issued h (on_ref_acquired obj_id obj (discard_ref obj_id (acquire_ref obj_id h))))
            (CallDecref obj_id) = 1"
  using assms
  apply (auto simp: issued_def acquire_ref_def discard_ref_def on_ref_acquired_def Let_def ready_def split: if_splits)
  done

theorem acquired_subset_required:
  fixes h :: "('id::linorder, 'obj) ref_helper"
  shows "(helper_reachable h \<longrightarrow> fmdom (acquired_refs h) |\<subseteq>| required_refs h) \<and>
    (fmdom (acquired_refs h) |\<subseteq>| required_refs h \<longrightarrow>
       fmdom (acquired_refs (acquire_ref obj_id h)) |\<subseteq>| required_refs (acquire_ref obj_id h) \<and>
       fmdom (acquired_refs (discard_ref obj_id h)) |\<subseteq>| required_refs (discard_ref obj_id h) \<and>
       fmdom (acquired_refs (discard_all h)) |\<subseteq>| required_refs (discard_all h) \<and>
       fmdom (acquired_refs (on_ref_acquired obj_id obj h))
         |\<subseteq>| required_refs (on_ref_acquired obj_id obj h) \<and>
       (ready h \<longleftrightarrow> required_refs h = fmdom (acquired_refs h)))"
  using helper_reachable_inv[of h] helper_inv_acquire_ref[of h obj_id]
    helper_inv_discard_ref[of h obj_id] helper_inv_discard_all[of h]
    helper_inv_on_ref_acquired[of h obj_id obj] helper_inv_ready[of h]
  unfolding helper_inv_def by blast

lemma helper_example_reachable: "helper_reachable helper_example"
  unfolding helper_example_def by (intro helper_reachable.intros)

theorem acquired_subset_required_witness:
  "fmdom (acquired_refs helper_example) |\<subseteq>| required_refs helper_example \<and>
   fmdom (acquired_refs (acquire_ref 3 helper_example)) |\<subseteq>| required_refs (acquire_ref 3 helper_example) \<and>
   fmdom (acquired_refs (discard_ref 1 helper_example)) |\<subseteq>| required_refs (discard_ref 1 helper_example) \<and>
   fmdom (acquired_refs (discard_all helper_example)) |\<subseteq>| required_refs (discard_all helper_example) \<and>
   fmdom (acquired_refs (on_ref_acquired 2 5 helper_example))
     |\<subseteq>| required_refs (on_ref_acquired 2 5 helper_example) \<and>
   (ready helper_example \<longleftrightarrow> required_refs helper_example = fmdom (acquired_refs helper_example))"
  using acquired_subset_required[of helper_example 3 5] acquired_subset_required[of helper_example 1 5]
    acquired_subset_required[of helper_example 2 5] helper_example_reachable
  by blast

theorem ready_iff_set_equal_witness:
  "\<not> ready helper_example \<and> required_refs helper_example \<noteq> fmdom (acquired_refs helper_example)"
proof -
  have "\<not> ready helper_example" by code_simp
  with ready_iff_set_equal[OF helper_example_reachable] show ?thesis by simp
qed

theorem ready_callback_witness:
  "count_list (issued helper_example (on_ref_acquired 2 5 helper_example)) CallReady = 1 \<and>
   fmlookup (acquired_refs (on_ref_acquired 2 5 helper_example)) 1 \<noteq> None \<and>
   fmlookup (acquired_refs (on_ref_acquired 2 5 helper_example)) 2 \<noteq> None"
proof -
  have "\<not> ready helper_example \<and> ready (on_ref_acquired 2 5 helper_example)" by code_simp
  moreover have "CallReady \<in> set (issued helper_example (on_ref_acquired 2 5 helper_example))"
    by code_simp
  moreover have "1 |\<in>| required_refs (on_ref_acquired 2 5 helper_example)"
    "2 |\<in>| required_refs (on_ref_acquired 2 5 helper_example)"
    by code_simp+
  ultimately show ?thesis
    using ready_callback[OF helper_example_reachable, of 2 5] by simp
qed

theorem acquire_discard_race_witness:
  "issued (acquire_ref 1 (helper_init :: (nat, nat) ref_helper))
     (discard_ref 1 (acquire_ref 1 helper_init)) = [] \<and>
   issued (discard_ref 1 (acquire_ref 1 (helper_init :: (nat, nat) ref_helper)))
     (on_ref_acquired 1 0 (discard_ref 1 (acquire_ref 1 helper_init))) = [CallDecref 1] \<and>
   count_list (issued (helper_init :: (nat, nat) ref_helper)
       (on_ref_acquired 1 0 (discard_ref 1 (acquire_ref 1 helper_init))))
     (CallDecref 1) = 1"
proof -
  have "(1::nat) |\<in>| pending_increfs (acquire_ref 1 (helper_init :: (nat, nat) ref_helper))"
    by code_simp
  then show ?thesis by (rule acquire_discard_race)
qed

end
